theory Spec2Isabelle
  imports Main "HOL-Library.Sublist"
begin

section \<open>Python string primitives used by the fetcher\<close>

text \<open>
  A Python \<open>str\<close> is modelled as a \<open>string\<close>; every \<open>char\<close> stands for one
  code point, so the model covers the code points below 256 and \<open>length\<close> is Python's
  \<open>len\<close>.
\<close>

text \<open>The code points below 256 for which \<open>str.isspace()\<close> holds.\<close>

definition whitespace_chars :: "char list" where
  "whitespace_chars =
     [CHR 0x09, CHR 0x0A, CHR 0x0B, CHR 0x0C, CHR 0x0D, CHR 0x1C, CHR 0x1D, CHR 0x1E,
      CHR 0x1F, CHR 0x20, CHR 0x85, CHR 0xA0]"

definition isspace :: "char \<Rightarrow> bool" where
  "isspace c = (c \<in> set whitespace_chars)"

text \<open>
  \<open>text.split()\<close> without arguments: the words between runs of whitespace; \<open>cur\<close> is
  the word being read.
\<close>

fun split_from :: "string \<Rightarrow> string \<Rightarrow> string list" where
  "split_from cur [] = (if cur = [] then [] else [cur])"
| "split_from cur (c # cs) =
     (if isspace c then (if cur = [] then split_from [] cs else cur # split_from [] cs)
      else split_from (cur @ [c]) cs)"

definition split :: "string \<Rightarrow> string list" where
  "split s = split_from [] s"

text \<open>\<open>' '.join(words)\<close>.\<close>

fun join_space :: "string list \<Rightarrow> string" where
  "join_space [] = []"
| "join_space [w] = w"
| "join_space (w # ws) = w @ '' '' @ join_space ws"

text \<open>\<open>sub in s\<close> for strings: \<open>sub\<close> occurs in \<open>s\<close> as a contiguous substring.\<close>

fun str_contains :: "string \<Rightarrow> string \<Rightarrow> bool" where
  "str_contains s [] = (s = [])"
| "str_contains s (c # cs) = (prefix s (c # cs) \<or> str_contains s cs)"

text \<open>
  \<open>s.replace(old, new)\<close>: every non-overlapping occurrence of \<open>old\<close>, scanning from
  the left. With an empty \<open>old\<close> Python puts \<open>new\<close> before every character and at the end.
\<close>

function replace :: "string \<Rightarrow> string \<Rightarrow> string \<Rightarrow> string" where
  "replace old new [] = (if old = [] then new else [])"
| "replace old new (c # cs) =
     (if old = [] then new @ c # replace old new cs
      else if prefix old (c # cs) then new @ replace old new (drop (length old) (c # cs))
      else c # replace old new cs)"
  by pat_completeness auto
termination
  by (relation "measure (\<lambda>(old, new, s). length s)") auto

text \<open>\<open>d.get(key, default)\<close> on a field that may be absent.\<close>

definition get_or :: "'a option \<Rightarrow> 'a \<Rightarrow> 'a" where
  "get_or field dflt = (case field of None \<Rightarrow> dflt | Some v \<Rightarrow> v)"

text \<open>\<open>s.lower()\<close> on the code points below 256.\<close>

definition upper_letters :: "char list" where
  "upper_letters =
     ''ABCDEFGHIJKLMNOPQRSTUVWXYZ'' @
     [CHR 0xC0, CHR 0xC1, CHR 0xC2, CHR 0xC3, CHR 0xC4, CHR 0xC5, CHR 0xC6, CHR 0xC7,
      CHR 0xC8, CHR 0xC9, CHR 0xCA, CHR 0xCB, CHR 0xCC, CHR 0xCD, CHR 0xCE, CHR 0xCF,
      CHR 0xD0, CHR 0xD1, CHR 0xD2, CHR 0xD3, CHR 0xD4, CHR 0xD5, CHR 0xD6, CHR 0xD8,
      CHR 0xD9, CHR 0xDA, CHR 0xDB, CHR 0xDC, CHR 0xDD, CHR 0xDE]"

definition lower_letters :: "char list" where
  "lower_letters =
     ''abcdefghijklmnopqrstuvwxyz'' @
     [CHR 0xE0, CHR 0xE1, CHR 0xE2, CHR 0xE3, CHR 0xE4, CHR 0xE5, CHR 0xE6, CHR 0xE7,
      CHR 0xE8, CHR 0xE9, CHR 0xEA, CHR 0xEB, CHR 0xEC, CHR 0xED, CHR 0xEE, CHR 0xEF,
      CHR 0xF0, CHR 0xF1, CHR 0xF2, CHR 0xF3, CHR 0xF4, CHR 0xF5, CHR 0xF6, CHR 0xF8,
      CHR 0xF9, CHR 0xFA, CHR 0xFB, CHR 0xFC, CHR 0xFD, CHR 0xFE]"

definition lower_char :: "char \<Rightarrow> char" where
  "lower_char c = get_or (map_of (zip upper_letters lower_letters) c) c"

definition lower :: "string \<Rightarrow> string" where
  "lower s = map lower_char s"

text \<open>\<open>str(n)\<close> for an integer, as an f-string renders it.\<close>

definition digit_char :: "nat \<Rightarrow> char" where
  "digit_char d = ''0123456789'' ! d"

fun digits_of :: "nat \<Rightarrow> string" where
  "digits_of n = (if n < 10 then [digit_char n] else digits_of (n div 10) @ [digit_char (n mod 10)])"

declare digits_of.simps [simp del]

definition py_str :: "int \<Rightarrow> string" where
  "py_str i = (if i < 0 then CHR ''-'' # digits_of (nat (- i)) else digits_of (nat i))"

section \<open>Text cleaning\<close>

definition deletion_markers :: "string list" where
  "deletion_markers = [''[deleted]'', ''[removed]'']"

text \<open>\<open>clean_text\<close>: the body of a post.\<close>

definition clean_text :: "string \<Rightarrow> string" where
  "clean_text text0 =
     (if text0 = [] \<or> text0 \<in> set deletion_markers then []
      else let text1 = join_space (split text0)
           in if length text1 > 500 then take 500 text1 @ ''...'' else text1)"

text \<open>\<open>clean_comment_text\<close>: the body of a comment.\<close>

definition clean_comment_text :: "string \<Rightarrow> string" where
  "clean_comment_text text0 =
     (if text0 = [] \<or> text0 \<in> set deletion_markers then []
      else let text1 = replace ''&gt;'' ''>'' (replace ''*'' [] (replace ''**'' [] text0));
               text2 = replace ''&amp;'' ''&'' (replace ''&lt;'' ''<'' text1);
               text3 = join_space (split text2)
           in if length text3 > 300 then take 300 text3 @ ''...'' else text3)"

section \<open>Relative time\<close>

datatype py_error = URLError | KeyError | IndexError | ValueError | OSError

text \<open>
  \<open>random.randint(lo, hi)\<close>; \<open>draw\<close> is the raw output of the generator at this call.
\<close>

definition randint :: "int \<Rightarrow> int \<Rightarrow> nat \<Rightarrow> int" where
  "randint lo hi draw = lo + int (draw mod nat (hi - lo + 1))"

text \<open>
  Naive datetimes are microseconds since the epoch, in a zone whose offset is the same at
  both instants (it cancels in the difference and is taken as 0).
  \<open>datetime.fromtimestamp\<close> raises outside the years 1 to 9999.
\<close>

definition min_timestamp :: int where
  "min_timestamp = - 62135596800"

definition max_timestamp :: int where
  "max_timestamp = 253402300799"

definition fromtimestamp :: "int \<Rightarrow> py_error + int" where
  "fromtimestamp ts =
     (if min_timestamp \<le> ts \<and> ts \<le> max_timestamp then Inr (ts * 1000000)
      else Inl ValueError)"

text \<open>The normalised fields \<open>days\<close> and \<open>seconds\<close> of a \<open>timedelta\<close>.\<close>

definition td_days :: "int \<Rightarrow> int" where
  "td_days diff = diff div 86400000000"

definition td_seconds :: "int \<Rightarrow> int" where
  "td_seconds diff = (diff mod 86400000000) div 1000000"

text \<open>
  \<open>convert_reddit_time\<close>; \<open>now\<close> is what \<open>datetime.now()\<close> reads at this call and
  \<open>draw\<close> what the random generator yields. The bare \<open>except\<close> catches the failure
  of \<open>fromtimestamp\<close>.
\<close>

definition convert_reddit_time :: "int \<Rightarrow> nat \<Rightarrow> int \<Rightarrow> string" where
  "convert_reddit_time now draw utc_timestamp =
     (if utc_timestamp = 0 then py_str (randint 1 6 draw) @ '' hours ago''
      else case fromtimestamp utc_timestamp of
             Inl e \<Rightarrow> py_str (randint 1 12 draw) @ '' hours ago''
           | Inr post_time \<Rightarrow>
               (let diff = now - post_time
                in if td_days diff > 0 then py_str (td_days diff) @ '' days ago''
                   else if td_seconds diff > 3600
                     then py_str (td_seconds diff div 3600) @ '' hours ago''
                   else if td_seconds diff > 60
                     then py_str (td_seconds diff div 60) @ '' minutes ago''
                   else ''just now''))"

section \<open>Raw records of the listing API\<close>

text \<open>
  A raw post is the \<open>data\<close> object of a listing child. A field is \<open>None\<close> when its
  key is absent; for \<open>removed_by_category\<close> and a comment's \<open>body\<close>, which the code
  reads with \<open>get\<close> and no default, \<open>None\<close> is also the JSON \<open>null\<close>.
\<close>

datatype source = Source (source_url: "string option")

datatype image = Image (image_source: "source option")

datatype preview = Preview (preview_images: "image list option")

record raw_post =
  r_removed_by_category :: "string option"
  r_title :: "string option"
  r_id :: "string option"
  r_permalink :: "string option"
  r_author :: "string option"
  r_created_utc :: "int option"
  r_ups :: "int option"
  r_num_comments :: "int option"
  r_selftext :: "string option"
  r_url :: "string option"
  r_preview :: "preview option"

record raw_comment =
  rc_body :: "string option"
  rc_author :: "string option"
  rc_ups :: "int option"
  rc_created_utc :: "int option"
  rc_id :: "string option"

text \<open>A child of a comment listing: its \<open>kind\<close> and \<open>data\<close> keys, each possibly absent.\<close>

record comment_child =
  cc_kind :: "string option"
  cc_data :: "raw_comment option"

section \<open>Stored records\<close>

text \<open>
  The keys \<open>url\<close>, \<open>reddit_id\<close> and \<open>reddit_permalink\<close> are absent from the
  built-in fallback records.
\<close>

record post =
  p_id :: int
  p_subreddit :: string
  p_title :: string
  p_author :: string
  p_time :: string
  p_upvotes :: int
  p_comments :: int
  p_text :: string
  p_url :: "string option"
  p_type :: string
  p_image :: "string option"
  p_reddit_id :: "string option"
  p_reddit_permalink :: "string option"

record comment =
  c_author :: string
  c_text :: string
  c_upvotes :: int
  c_time :: string
  c_reddit_id :: "string option"

section \<open>Type classification and image extraction\<close>

definition image_exts :: "string list" where
  "image_exts = [''.jpg'', ''.jpeg'', ''.png'', ''.gif'', ''.webp'']"

definition determine_post_type :: "raw_post \<Rightarrow> string" where
  "determine_post_type post =
     (let url = get_or (r_url post) [];
          selftext = get_or (r_selftext post) []
      in if selftext \<noteq> [] then ''text''
         else if \<exists>ext \<in> set image_exts. str_contains ext (lower url) then ''image''
         else if url \<noteq> [] \<and> url \<noteq> get_or (r_permalink post) [] then ''link''
         else ''text'')"

text \<open>\<open>post['preview']['images'][0]['source']['url'].replace('&amp;', '&')\<close>.\<close>

definition first_preview_url :: "image list \<Rightarrow> py_error + string" where
  "first_preview_url imgs =
     (case imgs of
        [] \<Rightarrow> Inl IndexError
      | im # _ \<Rightarrow>
          (case image_source im of
             None \<Rightarrow> Inl KeyError
           | Some src \<Rightarrow>
               (case source_url src of
                  None \<Rightarrow> Inl KeyError
                | Some u \<Rightarrow> Inr (replace ''&amp;'' ''&'' u))))"

definition get_image_url :: "raw_post \<Rightarrow> string option" where
  "get_image_url post =
     (let url = get_or (r_url post) []
      in if \<exists>ext \<in> set image_exts. str_contains ext (lower url) then Some url
         else case r_preview post of
                None \<Rightarrow> None
              | Some pv \<Rightarrow>
                  (case preview_images pv of
                     None \<Rightarrow> None
                   | Some imgs \<Rightarrow>
                       (case first_preview_url imgs of Inl e \<Rightarrow> None | Inr u \<Rightarrow> Some u)))"

section \<open>The world the run talks to\<close>

datatype write_op = WritePosts | WriteSummary | WriteFallback

text \<open>
  \<open>get_listing\<close> and \<open>get_comments\<close> answer a GET of a URL: \<open>Inl\<close> when
  \<open>urlopen\<close> or the JSON decoding raises, \<open>Inr None\<close> when the expected nesting
  (\<open>data.children\<close>) is absent, else the children. A child of a post listing is \<open>None\<close>
  when it has no \<open>data\<close> key. \<open>now_at\<close> and \<open>draw_at\<close> are the clock reading and
  the random draw at the k-th observation of the run; \<open>write_raises\<close> tells which
  file write raises.
\<close>

record world =
  get_listing :: "string \<Rightarrow> py_error + raw_post option list option"
  get_comments :: "string \<Rightarrow> py_error + comment_child list option"
  now_at :: "nat \<Rightarrow> int"
  draw_at :: "nat \<Rightarrow> nat"
  write_raises :: "write_op \<Rightarrow> bool"

section \<open>Fetching the comments of a post\<close>

text \<open>
  The loop of \<open>fetch_post_comments\<close> over the children; \<open>k\<close> counts the observations
  of clock and generator made so far.
\<close>

fun collect_comments ::
  "world \<Rightarrow> comment_child list \<Rightarrow> comment list \<Rightarrow> nat \<Rightarrow> (py_error + comment list) \<times> nat" where
  "collect_comments w [] comments k = (Inr comments, k)"
| "collect_comments w (comment_data # rest) comments k =
     (case cc_kind comment_data of
        None \<Rightarrow> (Inl KeyError, k)
      | Some kind \<Rightarrow>
          if kind = ''t1'' then
            (case cc_data comment_data of
               None \<Rightarrow> (Inl KeyError, k)
             | Some cmt \<Rightarrow>
                 if rc_body cmt = None \<or> rc_body cmt \<in> Some ` set deletion_markers
                 then collect_comments w rest comments k
                 else
                   (let comment_text = clean_comment_text (get_or (rc_body cmt) [])
                    in if comment_text \<noteq> [] \<and> length comment_text > 10
                       then collect_comments w rest
                              (comments @
                                 [\<lparr>c_author = get_or (rc_author cmt) ''unknown_user'',
                                   c_text = comment_text,
                                   c_upvotes = max (get_or (rc_ups cmt) 0) 1,
                                   c_time = convert_reddit_time (now_at w k) (draw_at w k)
                                              (get_or (rc_created_utc cmt) 0),
                                   c_reddit_id = Some (get_or (rc_id cmt) [])\<rparr>])
                              (Suc k)
                       else collect_comments w rest comments k))
          else collect_comments w rest comments k)"

definition comments_url :: "string \<Rightarrow> string" where
  "comments_url permalink = ''https://www.reddit.com'' @ permalink @ ''.json''"

text \<open>\<open>fetch_post_comments\<close>: any exception gives the empty list.\<close>

definition fetch_post_comments ::
  "world \<Rightarrow> nat \<Rightarrow> string \<Rightarrow> string \<Rightarrow> string \<Rightarrow> comment list \<times> nat" where
  "fetch_post_comments w k subreddit reddit_id permalink =
     (case get_comments w (comments_url permalink) of
        Inl e \<Rightarrow> ([], k)
      | Inr None \<Rightarrow> ([], k)
      | Inr (Some children) \<Rightarrow>
          (case collect_comments w (take 5 children) [] k of
             (Inl e, k') \<Rightarrow> ([], k')
           | (Inr comments, k') \<Rightarrow> (comments, k')))"

section \<open>The run\<close>

definition subreddits :: "string list" where
  "subreddits =
     [''science'', ''survival'', ''onebag'', ''xxfitness'', ''rustyrails'',
      ''blurrypicturesofcats'', ''scams'', ''dbz'', ''cartalkuk'', ''sales'',
      ''accidentalwesanderson'', ''worldbuilding'', ''aww'', ''pics'', ''cozyplaces'',
      ''malelivingspaces'', ''evilbuildings'', ''askreddit'', ''todayilearned'',
      ''explainlikeimfive'', ''changemyview'', ''unpopularopinion'', ''showerthoughts'',
      ''futurology'', ''cogsci'']"

text \<open>
  The accumulators of the run. \<open>all_comments\<close> is a Python dict, kept in insertion
  order; \<open>ticks\<close> counts the observations of clock and generator.
\<close>

record run_state =
  all_posts :: "post list"
  all_comments :: "(int \<times> comment list) list"
  post_id_counter :: int
  ticks :: nat

text \<open>\<open>d[key] = value\<close> on an insertion-ordered dict.\<close>

fun dict_set :: "('k \<times> 'v) list \<Rightarrow> 'k \<Rightarrow> 'v \<Rightarrow> ('k \<times> 'v) list" where
  "dict_set [] key v = [(key, v)]"
| "dict_set ((key', v') # d) key v =
     (if key' = key then (key, v) # d else (key', v') # dict_set d key v)"

definition listing_url :: "string \<Rightarrow> string" where
  "listing_url subreddit = ''https://www.reddit.com/r/'' @ subreddit @ ''/hot.json?limit=10''"

text \<open>\<open>post.get('removed_by_category') or post.get('title') == '[deleted]'\<close>.\<close>

definition skipped :: "raw_post \<Rightarrow> bool" where
  "skipped post =
     ((case r_removed_by_category post of None \<Rightarrow> False | Some s \<Rightarrow> s \<noteq> [])
      \<or> r_title post = Some ''[deleted]'')"

text \<open>The body of the inner loop for a raw post that is not skipped.\<close>

definition store_post :: "world \<Rightarrow> string \<Rightarrow> raw_post \<Rightarrow> run_state \<Rightarrow> run_state" where
  "store_post w subreddit post st =
     (let reddit_id = get_or (r_id post) [];
          permalink = get_or (r_permalink post) [];
          k = ticks st;
          processed_post =
            \<lparr>p_id = post_id_counter st,
             p_subreddit = subreddit,
             p_title = get_or (r_title post) [],
             p_author = get_or (r_author post) ''unknown_user'',
             p_time = convert_reddit_time (now_at w k) (draw_at w k)
                        (get_or (r_created_utc post) 0),
             p_upvotes = get_or (r_ups post) 0,
             p_comments = get_or (r_num_comments post) 0,
             p_text = clean_text (get_or (r_selftext post) []),
             p_url = Some (get_or (r_url post) []),
             p_type = determine_post_type post,
             p_image = get_image_url post,
             p_reddit_id = Some reddit_id,
             p_reddit_permalink = Some (''https://reddit.com'' @ permalink)\<rparr>;
          st1 = st\<lparr>all_posts := all_posts st @ [processed_post], ticks := Suc k\<rparr>;
          st2 =
            (if reddit_id \<noteq> [] \<and> permalink \<noteq> [] then
               (case fetch_post_comments w (ticks st1) subreddit reddit_id permalink of
                  (comments, k') \<Rightarrow>
                    if comments \<noteq> []
                    then st1\<lparr>all_comments :=
                               dict_set (all_comments st1) (post_id_counter st1) comments,
                             ticks := k'\<rparr>
                    else st1\<lparr>ticks := k'\<rparr>)
             else st1)
      in st2\<lparr>post_id_counter := post_id_counter st2 + 1\<rparr>)"

text \<open>
  The inner loop over the children of one listing. A child without \<open>data\<close> raises
  \<open>KeyError\<close>, which ends the loop; what was stored before stays stored.
\<close>

fun posts_loop ::
  "world \<Rightarrow> string \<Rightarrow> raw_post option list \<Rightarrow> run_state \<Rightarrow> py_error option \<times> run_state" where
  "posts_loop w subreddit [] st = (None, st)"
| "posts_loop w subreddit (post_data # rest) st =
     (case post_data of
        None \<Rightarrow> (Some KeyError, st)
      | Some post \<Rightarrow>
          if skipped post then posts_loop w subreddit rest st
          else posts_loop w subreddit rest (store_post w subreddit post st))"

text \<open>
  One pass of the outer loop: the \<open>try\<close> around a subreddit catches every exception and
  goes on with the next one.
\<close>

definition fetch_subreddit :: "world \<Rightarrow> run_state \<Rightarrow> string \<Rightarrow> run_state" where
  "fetch_subreddit w st subreddit =
     (case get_listing w (listing_url subreddit) of
        Inl e \<Rightarrow> st
      | Inr None \<Rightarrow> st
      | Inr (Some children) \<Rightarrow> snd (posts_loop w subreddit (take 3 children) st))"

definition initial_state :: run_state where
  "initial_state = \<lparr>all_posts = [], all_comments = [], post_id_counter = 1, ticks = 0\<rparr>"

definition fetch_all :: "world \<Rightarrow> run_state" where
  "fetch_all w = foldl (fetch_subreddit w) initial_state subreddits"

section \<open>Fallback data\<close>

definition create_fallback_posts :: "post list" where
  "create_fallback_posts =
     [\<lparr>p_id = 1, p_subreddit = ''science'',
       p_title = ''Breakthrough study reveals how social media algorithms fundamentally alter human cognitive patterns'',
       p_author = ''cognitive_researcher'', p_time = ''4 hours ago'', p_upvotes = 1847,
       p_comments = 423,
       p_text = ''A comprehensive study tracking 50,000 participants reveals how algorithmic content curation affects neural pathways and critical thinking abilities.'',
       p_url = None, p_type = ''text'', p_image = None, p_reddit_id = None,
       p_reddit_permalink = None\<rparr>,
      \<lparr>p_id = 2, p_subreddit = ''blurrypicturesofcats'',
       p_title = ''My cat moving at the speed of light'',
       p_author = ''cat_photographer'', p_time = ''2 hours ago'', p_upvotes = 2341,
       p_comments = 89, p_text = [],
       p_url = None, p_type = ''image'',
       p_image = Some ''https://images.unsplash.com/photo-1514888286974-6c03e2ca1dba?w=600&h=400&fit=crop'',
       p_reddit_id = None, p_reddit_permalink = None\<rparr>,
      \<lparr>p_id = 3, p_subreddit = ''dbz'',
       p_title = ''Goku vs Superman: Who would win in a real fight?'',
       p_author = ''anime_debater'', p_time = ''6 hours ago'', p_upvotes = 756,
       p_comments = 234,
       p_text = ''Settling this debate once and for all with power scaling analysis...'',
       p_url = None, p_type = ''text'', p_image = None, p_reddit_id = None,
       p_reddit_permalink = None\<rparr>]"

definition create_fallback_comments :: "(int \<times> comment list) list" where
  "create_fallback_comments =
     [(1, [\<lparr>c_author = ''research_fan'',
            c_text = ''This is fascinating research. The implications for understanding digital communication are huge.'',
            c_upvotes = 45, c_time = ''2 hours ago'', c_reddit_id = None\<rparr>,
           \<lparr>c_author = ''skeptical_scientist'',
            c_text = ''While interesting, I wonder about the sample size and methodology. Need to see the peer review.'',
            c_upvotes = 23, c_time = ''1 hour ago'', c_reddit_id = None\<rparr>]),
      (2, [\<lparr>c_author = ''cat_lover_99'', c_text = ''This is art. Pure, blurry art.'',
            c_upvotes = 67, c_time = ''1 hour ago'', c_reddit_id = None\<rparr>]),
      (3, [\<lparr>c_author = ''power_scaler'',
            c_text = ''Goku wins easily. Ultra Instinct is basically unbeatable.'',
            c_upvotes = 34, c_time = ''3 hours ago'', c_reddit_id = None\<rparr>,
           \<lparr>c_author = ''superman_fan'',
            c_text = ''Superman has no limits though. He always finds a way to win.'',
            c_upvotes = 28, c_time = ''2 hours ago'', c_reddit_id = None\<rparr>])]"

section \<open>Output files\<close>

text \<open>The JSON document; \<open>subreddits\<close> and \<open>source\<close> are keys that may be absent.\<close>

record output_data =
  od_total_posts :: nat
  od_fetch_date :: int
  od_subreddits :: "string list option"
  od_posts :: "post list"
  od_comments :: "(int \<times> comment list) list"
  od_source :: "string option"

text \<open>The data written to the summary file, line by line; the layout is not modelled.\<close>

record summary =
  sm_total_posts :: nat
  sm_posts_with_comments :: nat
  sm_subreddits :: "string list"
  sm_fetched :: int
  sm_overview :: "(string \<times> string \<times> nat) list"
  sm_samples :: "(string \<times> string list) list"

text \<open>\<open>next((p for p in all_posts if p['id'] == post_id), None)\<close>.\<close>

definition find_post :: "post list \<Rightarrow> int \<Rightarrow> post option" where
  "find_post ps post_id = List.find (\<lambda>p. p_id p = post_id) ps"

definition make_summary :: "run_state \<Rightarrow> int \<Rightarrow> summary" where
  "make_summary st now =
     \<lparr>sm_total_posts = length (all_posts st),
      sm_posts_with_comments = length (all_comments st),
      sm_subreddits = subreddits,
      sm_fetched = now,
      sm_overview =
        map (\<lambda>p. (p_subreddit p, take 80 (p_title p),
                   length (get_or (map_of (all_comments st) (p_id p)) [])))
            (all_posts st),
      sm_samples =
        concat (map (\<lambda>(post_id, comments).
                       case find_post (all_posts st) post_id of
                         None \<Rightarrow> []
                       | Some p \<Rightarrow>
                           [(take 60 (p_title p),
                             map (\<lambda>c. take 100 (c_text c)) (take 2 comments))])
                    (take 3 (all_comments st)))\<rparr>"

text \<open>
  What the run leaves in its two files (\<open>None\<close>: the run wrote nothing there; a write
  that raises leaves the file as it was) and how it ends.
\<close>

record files =
  reddit_posts_json :: "output_data option"
  posts_summary_txt :: "summary option"

datatype outcome = Returned bool | Raised py_error

text \<open>The handler of the outer \<open>try\<close>; an exception raised here leaves the function.\<close>

definition fallback :: "world \<Rightarrow> nat \<Rightarrow> files \<Rightarrow> files \<times> outcome" where
  "fallback w k fs =
     (let fallback_posts = create_fallback_posts;
          fallback_comments = create_fallback_comments;
          output_data =
            \<lparr>od_total_posts = length fallback_posts,
             od_fetch_date = now_at w k,
             od_subreddits = None,
             od_posts = fallback_posts,
             od_comments = fallback_comments,
             od_source = Some ''fallback''\<rparr>
      in if write_raises w WriteFallback then (fs, Raised OSError)
         else (fs\<lparr>reddit_posts_json := Some output_data\<rparr>, Returned True))"

definition fetch_reddit_posts_and_comments :: "world \<Rightarrow> files \<times> outcome" where
  "fetch_reddit_posts_and_comments w =
     (let st = fetch_all w;
          k = ticks st;
          fs0 = \<lparr>reddit_posts_json = None, posts_summary_txt = None\<rparr>;
          output_data =
            \<lparr>od_total_posts = length (all_posts st),
             od_fetch_date = now_at w k,
             od_subreddits = Some subreddits,
             od_posts = all_posts st,
             od_comments = all_comments st,
             od_source = None\<rparr>
      in if write_raises w WritePosts then fallback w (Suc k) fs0
         else
           (let fs1 = fs0\<lparr>reddit_posts_json := Some output_data\<rparr>
            in if write_raises w WriteSummary then fallback w (Suc k) fs1
               else (fs1\<lparr>posts_summary_txt := Some (make_summary st (now_at w (Suc k)))\<rparr>,
                     Returned True)))"

section \<open>Notions used in the statements\<close>

text \<open>\<open>s.endswith(suf)\<close>.\<close>

definition endswith :: "string \<Rightarrow> string \<Rightarrow> bool" where
  "endswith s suf = (length suf \<le> length s \<and> drop (length s - length suf) s = suf)"

text \<open>The test both classifiers make on the URL: a known image suffix occurs in it.\<close>

definition mentions_image_ext :: "string \<Rightarrow> bool" where
  "mentions_image_ext url = (\<exists>ext \<in> set image_exts. str_contains ext (lower url))"

text \<open>The specification's wording: the URL's extension is a known image suffix.\<close>

definition has_image_extension :: "string \<Rightarrow> bool" where
  "has_image_extension url = (\<exists>ext \<in> set image_exts. endswith (lower url) ext)"

text \<open>Type classification as the specification words it.\<close>

definition spec_post_type :: "raw_post \<Rightarrow> string" where
  "spec_post_type post =
     (let url = get_or (r_url post) [];
          selftext = get_or (r_selftext post) []
      in if selftext \<noteq> [] then ''text''
         else if has_image_extension url then ''image''
         else if url \<noteq> [] \<and> url \<noteq> get_or (r_permalink post) [] then ''link''
         else ''text'')"



text \<open>A raw post with a given URL and body text, for the concrete instances.\<close>

definition demo_post :: "string \<Rightarrow> string \<Rightarrow> raw_post" where
  "demo_post url selftext =
     \<lparr>r_removed_by_category = None, r_title = Some ''demo'', r_id = Some ''abc'',
      r_permalink = Some ''/r/demo/comments/abc/demo/'', r_author = Some ''someone'',
      r_created_utc = Some 1700000000, r_ups = Some 10, r_num_comments = Some 2,
      r_selftext = Some selftext, r_url = Some url, r_preview = None\<rparr>"

text \<open>
  A child of a comment listing passes the filters of \<open>fetch_post_comments\<close>: it is a
  comment, its body is neither absent nor a deletion marker, and its cleaned text is longer
  than 10.
\<close>

definition survives :: "comment_child \<Rightarrow> bool" where
  "survives ch =
     (cc_kind ch = Some ''t1'' \<and>
      (case cc_data ch of
         None \<Rightarrow> False
       | Some cmt \<Rightarrow>
           (case rc_body cmt of
              None \<Rightarrow> False
            | Some body \<Rightarrow> body \<notin> set deletion_markers \<and> 10 < length (clean_comment_text body))))"

text \<open>A child whose subscripts \<open>['kind']\<close> and \<open>['data']\<close> do not raise.\<close>

definition well_formed :: "comment_child \<Rightarrow> bool" where
  "well_formed ch = (cc_kind ch \<noteq> None \<and> (cc_kind ch = Some ''t1'' \<longrightarrow> cc_data ch \<noteq> None))"

text \<open>
  The fields of a stored comment that do not depend on the clock, and the same fields as
  computed from the raw child.
\<close>

definition stored_fields :: "comment \<Rightarrow> string \<times> string \<times> int \<times> string option" where
  "stored_fields c = (c_author c, c_text c, c_upvotes c, c_reddit_id c)"

definition raw_fields :: "comment_child \<Rightarrow> string \<times> string \<times> int \<times> string option" where
  "raw_fields ch =
     (case cc_data ch of
        None \<Rightarrow> ([], [], 0, None)
      | Some cmt \<Rightarrow>
          (get_or (rc_author cmt) ''unknown_user'',
           clean_comment_text (get_or (rc_body cmt) []),
           max (get_or (rc_ups cmt) 0) 1,
           Some (get_or (rc_id cmt) [])))"

text \<open>A comment listing of six children, the first one deleted, and a world that serves it.\<close>

definition demo_comment :: "string \<Rightarrow> comment_child" where
  "demo_comment body =
     \<lparr>cc_kind = Some ''t1'',
      cc_data = Some \<lparr>rc_body = Some body, rc_author = Some ''someone'', rc_ups = Some 3,
                      rc_created_utc = Some 1699990000, rc_id = Some ''c1''\<rparr>\<rparr>"

definition demo_children :: "comment_child list" where
  "demo_children =
     [demo_comment ''[deleted]'', demo_comment ''first reply'', demo_comment ''second reply'',
      demo_comment ''third reply'', demo_comment ''fourth reply'', demo_comment ''fifth reply'']"

definition demo_world :: "comment_child list \<Rightarrow> world" where
  "demo_world children =
     \<lparr>get_listing = (\<lambda>url. Inl URLError),
      get_comments = (\<lambda>url. Inr (Some children)),
      now_at = (\<lambda>k. 1700000000000000),
      draw_at = (\<lambda>k. 0),
      write_raises = (\<lambda>op. False)\<rparr>"

text \<open>
  What the comment fetch for a permalink returns, up to the time strings: the result does
  not depend on how many clock readings came before.
\<close>

definition comment_fields :: "world \<Rightarrow> string \<Rightarrow> (string \<times> string \<times> int \<times> string option) list" where
  "comment_fields w permalink =
     (case get_comments w (comments_url permalink) of
        Inl e \<Rightarrow> []
      | Inr None \<Rightarrow> []
      | Inr (Some children) \<Rightarrow>
          if list_all well_formed (take 5 children)
          then map raw_fields (filter survives (take 5 children)) else [])"

text \<open>The raw permalink of a stored post: its \<open>reddit_permalink\<close> without the host.\<close>

definition stored_permalink :: "post \<Rightarrow> string" where
  "stored_permalink p = drop 18 (get_or (p_reddit_permalink p) [])"

text \<open>
  The entry that the mapping should hold for a stored post: the fetched comments if the
  post has a native id and a permalink and the fetch returned a non-empty list, else none.
\<close>

definition expected_entry ::
  "world \<Rightarrow> post \<Rightarrow> (string \<times> string \<times> int \<times> string option) list option" where
  "expected_entry w p =
     (if get_or (p_reddit_id p) [] \<noteq> [] \<and> stored_permalink p \<noteq> []
         \<and> comment_fields w (stored_permalink p) \<noteq> []
      then Some (comment_fields w (stored_permalink p)) else None)"

text \<open>
  The raw posts of a channel that the run stores, in the order of the listing: among the
  first 3 children, those before the first child without \<open>data\<close>, the skipped ones left out.
\<close>

fun readable :: "raw_post option list \<Rightarrow> raw_post list" where
  "readable [] = []"
| "readable (None # rest) = []"
| "readable (Some post # rest) = post # readable rest"

definition channel_items :: "world \<Rightarrow> string \<Rightarrow> raw_post list" where
  "channel_items w subreddit =
     (case get_listing w (listing_url subreddit) of
        Inl e \<Rightarrow> []
      | Inr None \<Rightarrow> []
      | Inr (Some children) \<Rightarrow> filter (\<lambda>post. \<not> skipped post) (readable (take 3 children)))"

definition run_items :: "world \<Rightarrow> (string \<times> raw_post) list" where
  "run_items w = concat (map (\<lambda>subreddit. map (Pair subreddit) (channel_items w subreddit)) subreddits)"

definition item_fields :: "post \<Rightarrow> string \<times> string option \<times> string" where
  "item_fields p = (p_subreddit p, p_reddit_id p, p_title p)"

definition raw_item_fields :: "string \<times> raw_post \<Rightarrow> string \<times> string option \<times> string" where
  "raw_item_fields sp = (fst sp, Some (get_or (r_id (snd sp)) []), get_or (r_title (snd sp)) [])"

text \<open>The invariant of the two loops of the run.\<close>

definition run_inv :: "world \<Rightarrow> run_state \<Rightarrow> bool" where
  "run_inv w st =
     (map p_id (all_posts st) = [1..post_id_counter st - 1]
      \<and> 1 \<le> post_id_counter st
      \<and> (\<forall>p \<in> set (all_posts st).
            map_option (map stored_fields) (map_of (all_comments st) (p_id p)) = expected_entry w p)
      \<and> (\<forall>i \<in> fst ` set (all_comments st). 1 \<le> i \<and> i < post_id_counter st)
      \<and> (\<forall>e \<in> set (all_comments st). snd e \<noteq> []))"

text \<open>
  A world for the concrete instances: \<open>science\<close> lists a deleted post and two posts that
  share a permalink whose comments are \<open>demo_children\<close>, \<open>dbz\<close> lists a post without
  native id, and every other channel fails.
\<close>

definition demo_run_world :: world where
  "demo_run_world =
     \<lparr>get_listing =
        (\<lambda>url. if url = listing_url ''science''
               then Inr (Some [Some ((demo_post [] ''x'')\<lparr>r_title := Some ''[deleted]''\<rparr>),
                               Some (demo_post ''http://x.com/cat.jpg'' []),
                               Some (demo_post [] ''hello'')])
               else if url = listing_url ''dbz''
               then Inr (Some [Some ((demo_post [] ''hi'')\<lparr>r_id := None\<rparr>)])
               else Inl URLError),
      get_comments =
        (\<lambda>url. if url = comments_url ''/r/demo/comments/abc/demo/''
               then Inr (Some demo_children) else Inl URLError),
      now_at = (\<lambda>k. 1700000000000000),
      draw_at = (\<lambda>k. 0),
      write_raises = (\<lambda>op. False)\<rparr>"

text \<open>
  A string whose only whitespace is single spaces between words: it starts and ends with a
  character that is not whitespace, and every space is followed by such a character.
\<close>

fun ws_normal :: "string \<Rightarrow> bool" where
  "ws_normal [] = True"
| "ws_normal [c] = (\<not> isspace c)"
| "ws_normal (c # d # cs) =
     (\<not> isspace c \<and> (if d = CHR '' '' then cs \<noteq> [] \<and> ws_normal cs else ws_normal (d # cs)))"

text \<open>The steps of the cleaning, by name.\<close>

definition collapse :: "string \<Rightarrow> string" where
  "collapse s = join_space (split s)"







section \<open>Lemmas about the string primitives\<close>

lemma str_contains_iff: "str_contains sub s \<longleftrightarrow> (\<exists>p q. s = p @ sub @ q)"
proof (induction s)
  case Nil
  then show ?case by auto
next
  case (Cons c cs)
  show ?case
  proof
    assume "str_contains sub (c # cs)"
    then consider "prefix sub (c # cs)" | "str_contains sub cs" by auto
    then show "\<exists>p q. c # cs = p @ sub @ q"
    proof cases
      case 1
      then obtain q where "c # cs = sub @ q" by (auto simp: prefix_def)
      then have "c # cs = [] @ sub @ q" by simp
      then show ?thesis by blast
    next
      case 2
      then obtain p q where "cs = p @ sub @ q" using Cons.IH by blast
      then have "c # cs = (c # p) @ sub @ q" by simp
      then show ?thesis by blast
    qed
  next
    assume "\<exists>p q. c # cs = p @ sub @ q"
    then obtain p q where pq: "c # cs = p @ sub @ q" by blast
    show "str_contains sub (c # cs)"
    proof (cases p)
      case Nil
      then have "prefix sub (c # cs)" using pq by (metis append_Nil prefixI)
      then show ?thesis by simp
    next
      case (Cons a p')
      then have "cs = p' @ sub @ q" using pq by simp
      then have "str_contains sub cs" using Cons.IH by blast
      then show ?thesis by simp
    qed
  qed
qed

lemma endswith_iff: "endswith s suf \<longleftrightarrow> (\<exists>p. s = p @ suf)"
proof
  assume "endswith s suf"
  then have "s = take (length s - length suf) s @ suf"
    by (metis append_take_drop_id endswith_def)
  then show "\<exists>p. s = p @ suf" by blast
next
  assume "\<exists>p. s = p @ suf"
  then show "endswith s suf" by (auto simp: endswith_def)
qed

lemma endswith_contains: "endswith s suf \<Longrightarrow> str_contains suf s"
  unfolding endswith_iff str_contains_iff by (metis append_Nil2)

lemmas lower_eval = lower_def lower_char_def upper_letters_def lower_letters_def get_or_def

lemmas split_eval = split_def isspace_def whitespace_chars_def


section \<open>Relative time: the units and their thresholds\<close>







section \<open>Relative time: monotonicity\<close>











section \<open>Deletion markers in post text\<close>

text \<open>
  Claim C5, as amended: for a body text equal to \<open>[deleted]\<close> or \<open>[removed]\<close>,
  \<open>clean_text\<close> returns the empty string.
\<close>

theorem clean_text_marker:
  "text0 \<in> set deletion_markers \<Longrightarrow> clean_text text0 = []"
  by (simp add: clean_text_def)

theorem clean_text_marker_witness:
  "''[removed]'' \<in> set deletion_markers \<and> clean_text ''[removed]'' = []
   \<and> ''[deleted]'' \<in> set deletion_markers \<and> clean_text ''[deleted]'' = []"
  using clean_text_marker [of "''[removed]''"] clean_text_marker [of "''[deleted]''"]
  by (simp add: deletion_markers_def)

text \<open>
  Claim C5 as stated fails: the marker is compared with the whole text, so a text that
  only contains it is kept.
\<close>

theorem clean_text_substring_counterexample:
  "str_contains ''[deleted]'' ''post [deleted] here''
   \<and> clean_text ''post [deleted] here'' = ''post [deleted] here''"
  by (simp add: clean_text_def deletion_markers_def split_eval)

section \<open>Type classification\<close>

lemma has_image_extension_mentions: "has_image_extension url \<Longrightarrow> mentions_image_ext url"
  unfolding has_image_extension_def mentions_image_ext_def
  using endswith_contains by blast

text \<open>
  Claim C6, as amended: \<open>text\<close> if the body text is non-empty; else \<open>image\<close> if a
  known image suffix occurs anywhere in the lower-cased URL (so also when the URL ends with
  one); else \<open>link\<close> if the URL is non-empty and differs from the permalink; else
  \<open>text\<close>. \<open>get_image_url\<close> returns the URL whenever a known image suffix occurs in
  it. A post with URL \<open>http://x.com/cat.jpg\<close> and empty body text is an \<open>image\<close>
  and its image is that URL.
\<close>

theorem determine_post_type_cases:
  fixes post :: raw_post
  defines "url \<equiv> get_or (r_url post) []"
  defines "selftext \<equiv> get_or (r_selftext post) []"
  defines "permalink \<equiv> get_or (r_permalink post) []"
  shows "(selftext \<noteq> [] \<longrightarrow> determine_post_type post = ''text'')
    \<and> (selftext = [] \<and> mentions_image_ext url \<longrightarrow> determine_post_type post = ''image'')
    \<and> (selftext = [] \<and> has_image_extension url \<longrightarrow> determine_post_type post = ''image'')
    \<and> (selftext = [] \<and> \<not> mentions_image_ext url \<and> url \<noteq> [] \<and> url \<noteq> permalink
         \<longrightarrow> determine_post_type post = ''link'')
    \<and> (selftext = [] \<and> \<not> mentions_image_ext url \<and> (url = [] \<or> url = permalink)
         \<longrightarrow> determine_post_type post = ''text'')
    \<and> (mentions_image_ext url \<longrightarrow> get_image_url post = Some url)
    \<and> (selftext = [] \<and> url = ''http://x.com/cat.jpg''
         \<longrightarrow> determine_post_type post = ''image'' \<and> get_image_url post = Some url)"
proof -
  have cat: "mentions_image_ext ''http://x.com/cat.jpg''"
    by (simp add: mentions_image_ext_def image_exts_def lower_eval)
  show ?thesis
    using has_image_extension_mentions [of url] cat
    by (auto simp: determine_post_type_def get_image_url_def mentions_image_ext_def
        url_def selftext_def permalink_def Let_def)
qed

theorem determine_post_type_cases_witness:
  "determine_post_type (demo_post ''http://x.com/cat.jpg'' []) = ''image''
   \<and> get_image_url (demo_post ''http://x.com/cat.jpg'' []) = Some ''http://x.com/cat.jpg''
   \<and> determine_post_type (demo_post ''http://x.com/cat.jpg'' ''hello'') = ''text''
   \<and> determine_post_type (demo_post ''http://x.com/page'' []) = ''link''
   \<and> determine_post_type (demo_post [] []) = ''text''"
  using determine_post_type_cases [of "demo_post ''http://x.com/cat.jpg'' []"]
    determine_post_type_cases [of "demo_post ''http://x.com/cat.jpg'' ''hello''"]
    determine_post_type_cases [of "demo_post ''http://x.com/page'' []"]
    determine_post_type_cases [of "demo_post [] []"]
  by (simp add: demo_post_def mentions_image_ext_def image_exts_def lower_eval)

text \<open>
  Claim C6 as stated fails: the suffix is looked for anywhere in the URL, so a URL whose
  host name contains \<open>.gif\<close> is an image, where the wording of the claim gives a link.
\<close>

theorem determine_post_type_extension_counterexample:
  "determine_post_type (demo_post ''http://x.gifts.com/page'' []) = ''image''
   \<and> spec_post_type (demo_post ''http://x.gifts.com/page'' []) = ''link''"
  by (simp add: determine_post_type_def spec_post_type_def has_image_extension_def
      demo_post_def image_exts_def endswith_def lower_eval)

section \<open>The comments of a post\<close>

lemma collect_comments_Inr:
  "collect_comments w cs acc k = (Inr res, k') \<Longrightarrow>
   map stored_fields res = map stored_fields acc @ map raw_fields (filter survives cs)"
proof (induction cs arbitrary: acc k)
  case Nil
  then show ?case by simp
next
  case (Cons ch cs)
  show ?case
  proof (cases "cc_kind ch")
    case None
    then show ?thesis using Cons.prems by simp
  next
    case (Some kind)
    show ?thesis
    proof (cases "kind = ''t1''")
      case False
      then have "collect_comments w cs acc k = (Inr res, k')" using Cons.prems Some by simp
      moreover have "\<not> survives ch" using False Some by (simp add: survives_def)
      ultimately show ?thesis using Cons.IH by simp
    next
      case True
      show ?thesis
      proof (cases "cc_data ch")
        case None
        then show ?thesis using Cons.prems Some True by simp
      next
        case d: (Some cmt)
        show ?thesis
        proof (cases "rc_body cmt = None \<or> rc_body cmt \<in> Some ` set deletion_markers")
          case skip: True
          then have "collect_comments w cs acc k = (Inr res, k')"
            using Cons.prems Some True d by simp
          moreover have "\<not> survives ch"
            using skip d by (auto simp: survives_def split: option.splits)
          ultimately show ?thesis using Cons.IH by simp
        next
          case keep: False
          then obtain body where body: "rc_body cmt = Some body" "body \<notin> set deletion_markers"
            by auto
          show ?thesis
          proof (cases "10 < length (clean_comment_text body)")
            case long: True
            then have ne: "clean_comment_text body \<noteq> []" by auto
            have sv: "survives ch" using Some True d body long by (simp add: survives_def)
            obtain c where step: "collect_comments w cs (acc @ [c]) (Suc k) = (Inr res, k')"
              and c: "stored_fields c = raw_fields ch"
              using Cons.prems Some True d body long ne keep
              by (simp add: Let_def get_or_def stored_fields_def raw_fields_def)
            show ?thesis using Cons.IH [OF step] sv c by simp
          next
            case short: False
            then have "collect_comments w cs acc k = (Inr res, k')"
              using Cons.prems Some True d body keep by (auto simp: Let_def get_or_def)
            moreover have "\<not> survives ch" using short d body by (simp add: survives_def)
            ultimately show ?thesis using Cons.IH by simp
          qed
        qed
      qed
    qed
  qed
qed

lemma collect_comments_well_formed:
  "list_all well_formed cs \<Longrightarrow> \<exists>res k'. collect_comments w cs acc k = (Inr res, k')"
proof (induction cs arbitrary: acc k)
  case Nil
  then show ?case by simp
next
  case (Cons ch cs)
  then have wf: "well_formed ch" and rest: "list_all well_formed cs" by simp_all
  from wf obtain kind where kind: "cc_kind ch = Some kind" by (auto simp: well_formed_def)
  show ?case
  proof (cases "kind = ''t1''")
    case False
    then show ?thesis using kind Cons.IH [OF rest] by simp
  next
    case True
    then obtain cmt where "cc_data ch = Some cmt" using wf kind by (auto simp: well_formed_def)
    then show ?thesis using kind True Cons.IH [OF rest] by (simp add: Let_def)
  qed
qed


lemma fetch_post_comments_cases:
  "get_comments w (comments_url permalink) = Inr (Some children) \<Longrightarrow>
   (fst (fetch_post_comments w k subreddit reddit_id permalink) = []
      \<and> \<not> list_all well_formed (take 5 children))
   \<or> map stored_fields (fst (fetch_post_comments w k subreddit reddit_id permalink))
       = map raw_fields (filter survives (take 5 children))"
proof -
  assume g: "get_comments w (comments_url permalink) = Inr (Some children)"
  obtain r k' where c: "collect_comments w (take 5 children) [] k = (r, k')"
    by (cases "collect_comments w (take 5 children) [] k")
  show ?thesis
  proof (cases r)
    case (Inl e)
    then have "fst (fetch_post_comments w k subreddit reddit_id permalink) = []"
      using g c by (simp add: fetch_post_comments_def)
    moreover have "\<not> list_all well_formed (take 5 children)"
      using collect_comments_well_formed [of "take 5 children" w "[]" k] c Inl by auto
    ultimately show ?thesis by simp
  next
    case (Inr res)
    then have "fst (fetch_post_comments w k subreddit reddit_id permalink) = res"
      using g c by (simp add: fetch_post_comments_def)
    moreover have "map stored_fields res = map raw_fields (filter survives (take 5 children))"
      using collect_comments_Inr [of w "take 5 children" "[]" k res k'] c Inr by simp
    ultimately show ?thesis by simp
  qed
qed





section \<open>The run: sequence ids and the comment mapping\<close>

lemma map_of_dict_set: "map_of (dict_set d key v) = (map_of d)(key \<mapsto> v)"
  by (induction d key v rule: dict_set.induct) auto

lemma keys_dict_set: "fst ` set (dict_set d key v) = insert key (fst ` set d)"
  by (induction d key v rule: dict_set.induct) auto

lemma set_dict_set: "set (dict_set d key v) \<subseteq> insert (key, v) (set d)"
  by (induction d key v rule: dict_set.induct) auto

lemma collect_comments_ill_formed:
  "\<not> list_all well_formed cs \<Longrightarrow> \<exists>e k'. collect_comments w cs acc k = (Inl e, k')"
proof (induction cs arbitrary: acc k)
  case Nil
  then show ?case by simp
next
  case (Cons ch cs)
  show ?case
  proof (cases "well_formed ch")
    case False
    then show ?thesis by (auto simp: well_formed_def)
  next
    case True
    then have rest: "\<not> list_all well_formed cs" using Cons.prems by simp
    from True obtain kind where kind: "cc_kind ch = Some kind" by (auto simp: well_formed_def)
    show ?thesis
    proof (cases "kind = ''t1''")
      case False
      then show ?thesis using kind Cons.IH [OF rest] by simp
    next
      case t: True
      then obtain cmt where "cc_data ch = Some cmt" using True kind by (auto simp: well_formed_def)
      then show ?thesis using kind t Cons.IH [OF rest] by (simp add: Let_def)
    qed
  qed
qed

lemma fetch_post_comments_fields:
  "map stored_fields (fst (fetch_post_comments w k subreddit reddit_id permalink))
   = comment_fields w permalink"
proof (cases "get_comments w (comments_url permalink)")
  case (Inl e)
  then show ?thesis by (simp add: fetch_post_comments_def comment_fields_def)
next
  case (Inr r)
  show ?thesis
  proof (cases r)
    case None
    then show ?thesis using Inr by (simp add: fetch_post_comments_def comment_fields_def)
  next
    case (Some children)
    then have g: "get_comments w (comments_url permalink) = Inr (Some children)" using Inr by simp
    show ?thesis
    proof (cases "list_all well_formed (take 5 children)")
      case True
      then show ?thesis
        using fetch_post_comments_cases [OF g, of k subreddit reddit_id] g
        by (auto simp: comment_fields_def)
    next
      case False
      then obtain e k' where "collect_comments w (take 5 children) [] k = (Inl e, k')"
        using collect_comments_ill_formed by blast
      then show ?thesis using g False by (simp add: fetch_post_comments_def comment_fields_def)
    qed
  qed
qed

lemma store_post_effect:
  fixes w sub post st
  defines "rid \<equiv> get_or (r_id post) []"
  defines "pl \<equiv> get_or (r_permalink post) []"
  defines "st' \<equiv> store_post w sub post st"
  obtains p cs where
    "all_posts st' = all_posts st @ [p]"
    "p_id p = post_id_counter st"
    "item_fields p = raw_item_fields (sub, post)"
    "get_or (p_reddit_id p) [] = rid"
    "stored_permalink p = pl"
    "post_id_counter st' = post_id_counter st + 1"
    "map stored_fields cs = comment_fields w pl"
    "all_comments st' =
       (if rid \<noteq> [] \<and> pl \<noteq> [] \<and> cs \<noteq> []
        then dict_set (all_comments st) (post_id_counter st) cs else all_comments st)"
proof -
  obtain cs k' where f: "fetch_post_comments w (Suc (ticks st)) sub rid pl = (cs, k')"
    by (cases "fetch_post_comments w (Suc (ticks st)) sub rid pl")
  have cf: "map stored_fields cs = comment_fields w pl"
    using fetch_post_comments_fields [of w "Suc (ticks st)" sub rid pl] f by simp
  let ?p = "last (all_posts st')"
  have posts: "all_posts st' = all_posts st @ [?p]"
    using f unfolding st'_def store_post_def Let_def rid_def [symmetric] pl_def [symmetric]
    by (simp split: if_splits)
  have "p_id ?p = post_id_counter st" "item_fields ?p = raw_item_fields (sub, post)"
    "get_or (p_reddit_id ?p) [] = rid" "stored_permalink ?p = pl"
    using f unfolding st'_def store_post_def Let_def rid_def [symmetric] pl_def [symmetric]
    by (simp_all add: item_fields_def raw_item_fields_def stored_permalink_def get_or_def
        rid_def pl_def split: if_splits)
  moreover have "post_id_counter st' = post_id_counter st + 1"
    using f unfolding st'_def store_post_def Let_def rid_def [symmetric] pl_def [symmetric]
    by (simp split: if_splits)
  moreover have "all_comments st' =
       (if rid \<noteq> [] \<and> pl \<noteq> [] \<and> cs \<noteq> []
        then dict_set (all_comments st) (post_id_counter st) cs else all_comments st)"
    using f unfolding st'_def store_post_def Let_def rid_def [symmetric] pl_def [symmetric]
    by (simp split: if_splits)
  ultimately show thesis using that posts cf by blast
qed

lemma upto_snoc: "1 \<le> c \<Longrightarrow> [1..c - 1] @ [c] = [1..(c + 1) - 1]"
  using upto_rec2 [of 1 c] by simp

lemma run_inv_store_post:
  assumes inv: "run_inv w st"
  shows "run_inv w (store_post w sub post st)"
proof -
  let ?st' = "store_post w sub post st"
  let ?c = "post_id_counter st"
  let ?rid = "get_or (r_id post) []"
  let ?pl = "get_or (r_permalink post) []"
  obtain p cs where
    posts: "all_posts ?st' = all_posts st @ [p]" and
    pid: "p_id p = ?c" and
    prid: "get_or (p_reddit_id p) [] = ?rid" and
    ppl: "stored_permalink p = ?pl" and
    cnt: "post_id_counter ?st' = ?c + 1" and
    cf: "map stored_fields cs = comment_fields w ?pl" and
    ac: "all_comments ?st' =
       (if ?rid \<noteq> [] \<and> ?pl \<noteq> [] \<and> cs \<noteq> []
        then dict_set (all_comments st) ?c cs else all_comments st)"
    by (rule store_post_effect [of w sub post st]) blast
  from inv have ids: "map p_id (all_posts st) = [1..?c - 1]" and c1: "1 \<le> ?c"
    and entries: "\<forall>q \<in> set (all_posts st).
            map_option (map stored_fields) (map_of (all_comments st) (p_id q)) = expected_entry w q"
    and keys: "\<forall>i \<in> fst ` set (all_comments st). 1 \<le> i \<and> i < ?c"
    and vals: "\<forall>e \<in> set (all_comments st). snd e \<noteq> []"
    by (simp_all add: run_inv_def)
  have fresh: "map_of (all_comments st) ?c = None"
  proof (rule ccontr)
    assume "map_of (all_comments st) ?c \<noteq> None"
    then have "?c \<in> fst ` set (all_comments st)" by (metis map_of_eq_None_iff)
    then show False using keys by auto
  qed
  have old_ids: "p_id q < ?c" if "q \<in> set (all_posts st)" for q
  proof -
    from that have "p_id q \<in> set (map p_id (all_posts st))" by simp
    then show ?thesis unfolding ids by simp
  qed
  have cs_empty: "(cs = []) = (comment_fields w ?pl = [])" using cf by (metis map_is_Nil_conv)
  have A: "map p_id (all_posts ?st') = [1..post_id_counter ?st' - 1]"
    using ids pid c1 upto_snoc [of ?c] by (simp add: posts cnt)
  have B: "1 \<le> post_id_counter ?st'" using c1 cnt by simp
  have C: "map_option (map stored_fields) (map_of (all_comments ?st') (p_id q)) = expected_entry w q"
    if q: "q \<in> set (all_posts ?st')" for q
  proof (cases "q \<in> set (all_posts st)")
    case True
    then have "p_id q \<noteq> ?c" using old_ids by force
    then have "map_of (all_comments ?st') (p_id q) = map_of (all_comments st) (p_id q)"
      by (simp add: ac map_of_dict_set)
    then show ?thesis using entries True by simp
  next
    case False
    then have qp: "q = p" using q posts by simp
    show ?thesis
    proof (cases "?rid \<noteq> [] \<and> ?pl \<noteq> [] \<and> cs \<noteq> []")
      case True
      then have "map_of (all_comments ?st') (p_id q) = Some cs"
        by (simp add: ac map_of_dict_set qp pid)
      moreover have "expected_entry w q = Some (comment_fields w ?pl)"
        using True cs_empty by (simp add: expected_entry_def qp prid ppl)
      ultimately show ?thesis using cf by simp
    next
      case False
      then have "map_of (all_comments ?st') (p_id q) = None"
        using fresh by (auto simp: ac qp pid)
      moreover have "expected_entry w q = None"
        using False cs_empty by (auto simp: expected_entry_def qp prid ppl)
      ultimately show ?thesis by simp
    qed
  qed
  have D: "1 \<le> i \<and> i < post_id_counter ?st'" if "i \<in> fst ` set (all_comments ?st')" for i
  proof -
    from that have "i = ?c \<or> i \<in> fst ` set (all_comments st)"
      by (auto simp: ac keys_dict_set split: if_splits)
    then show ?thesis using keys c1 cnt by auto
  qed
  have E: "snd e \<noteq> []" if "e \<in> set (all_comments ?st')" for e
  proof (cases "?rid \<noteq> [] \<and> ?pl \<noteq> [] \<and> cs \<noteq> []")
    case True
    then have "e = (?c, cs) \<or> e \<in> set (all_comments st)"
      using that set_dict_set [of "all_comments st" ?c cs] by (auto simp: ac)
    then show ?thesis using True vals by auto
  next
    case False
    then show ?thesis using that vals by (auto simp: ac)
  qed
  show ?thesis unfolding run_inv_def using A B C D E by blast
qed

lemma run_inv_posts_loop:
  "run_inv w st \<Longrightarrow> run_inv w (snd (posts_loop w sub children st))"
proof (induction children arbitrary: st)
  case Nil
  then show ?case by simp
next
  case (Cons ch children)
  show ?case
  proof (cases ch)
    case None
    then show ?thesis using Cons.prems by simp
  next
    case (Some post)
    then show ?thesis
      using Cons.IH [OF Cons.prems] Cons.IH [OF run_inv_store_post [OF Cons.prems]]
      by simp
  qed
qed

lemma run_inv_fetch_subreddit: "run_inv w st \<Longrightarrow> run_inv w (fetch_subreddit w st sub)"
  by (auto simp: fetch_subreddit_def run_inv_posts_loop split: sum.splits option.splits)

lemma run_inv_foldl: "run_inv w st \<Longrightarrow> run_inv w (foldl (fetch_subreddit w) st subs)"
  by (induction subs arbitrary: st) (simp_all add: run_inv_fetch_subreddit)

lemma run_inv_initial: "run_inv w initial_state"
  by (simp add: run_inv_def initial_state_def)

lemma run_inv_fetch_all: "run_inv w (fetch_all w)"
  unfolding fetch_all_def by (rule run_inv_foldl [OF run_inv_initial])

lemma items_posts_loop:
  "map item_fields (all_posts (snd (posts_loop w sub children st)))
   = map item_fields (all_posts st)
     @ map raw_item_fields (map (Pair sub) (filter (\<lambda>post. \<not> skipped post) (readable children)))"
proof (induction children arbitrary: st)
  case Nil
  then show ?case by simp
next
  case (Cons ch children)
  show ?case
  proof (cases ch)
    case None
    then show ?thesis by simp
  next
    case (Some post)
    show ?thesis
    proof (cases "skipped post")
      case True
      then show ?thesis using Some Cons.IH [of st] by simp
    next
      case False
      obtain p where "all_posts (store_post w sub post st) = all_posts st @ [p]"
        "item_fields p = raw_item_fields (sub, post)"
        by (rule store_post_effect [of w sub post st]) blast
      then show ?thesis using Some False Cons.IH [of "store_post w sub post st"] by simp
    qed
  qed
qed

lemma items_fetch_subreddit:
  "map item_fields (all_posts (fetch_subreddit w st sub))
   = map item_fields (all_posts st) @ map raw_item_fields (map (Pair sub) (channel_items w sub))"
  by (auto simp: fetch_subreddit_def channel_items_def items_posts_loop
      split: sum.splits option.splits)

lemma items_foldl:
  "map item_fields (all_posts (foldl (fetch_subreddit w) st subs))
   = map item_fields (all_posts st)
     @ map raw_item_fields (concat (map (\<lambda>sub. map (Pair sub) (channel_items w sub)) subs))"
  by (induction subs arbitrary: st) (simp_all add: items_fetch_subreddit)

lemma items_fetch_all: "map item_fields (all_posts (fetch_all w)) = map raw_item_fields (run_items w)"
  unfolding fetch_all_def run_items_def by (simp add: items_foldl initial_state_def)

lemma ids_of_inv:
  assumes "run_inv w st"
  shows "map p_id (all_posts st) = [1..int (length (all_posts st))]"
proof -
  from assms have ids: "map p_id (all_posts st) = [1..post_id_counter st - 1]"
    and c: "1 \<le> post_id_counter st" by (simp_all add: run_inv_def)
  have "length (all_posts st) = length [1..post_id_counter st - 1]"
    using ids by (metis length_map)
  then have "int (length (all_posts st)) = post_id_counter st - 1" using c by simp
  then show ?thesis using ids by simp
qed

lemma fallback_ids: "map p_id create_fallback_posts = [1..int (length create_fallback_posts)]"
proof -
  have "[1..3] = [1, 2, 3::int]" by (simp add: upto_rec1)
  then show ?thesis by (simp add: create_fallback_posts_def)
qed

lemma written_document:
  assumes "reddit_posts_json (fst (fetch_reddit_posts_and_comments w)) = Some doc"
  shows "(od_source doc = None \<and> od_posts doc = all_posts (fetch_all w)
            \<and> od_comments doc = all_comments (fetch_all w)
            \<and> od_total_posts doc = length (all_posts (fetch_all w)))
         \<or> (od_source doc = Some ''fallback'' \<and> od_posts doc = create_fallback_posts
            \<and> od_comments doc = create_fallback_comments)"
  using assms
  by (auto simp: fetch_reddit_posts_and_comments_def fallback_def Let_def split: if_splits)

lemma demo_run_eval:
  "map p_id (all_posts (fetch_all demo_run_world)) = [1, 2, 3]
   \<and> map fst (all_comments (fetch_all demo_run_world)) = [1, 2]
   \<and> map (\<lambda>e. length (snd e)) (all_comments (fetch_all demo_run_world)) = [4, 4]
   \<and> map p_reddit_id (all_posts (fetch_all demo_run_world)) = [Some ''abc'', Some ''abc'', Some []]"
  by (simp add: fetch_all_def subreddits_def fetch_subreddit_def listing_url_def
      demo_run_world_def initial_state_def skipped_def demo_post_def store_post_def
      fetch_post_comments_def comments_url_def demo_children_def demo_comment_def
      get_or_def deletion_markers_def clean_comment_text_def split_eval Let_def)

lemma demo_run_written:
  "reddit_posts_json (fst (fetch_reddit_posts_and_comments demo_run_world)) \<noteq> None"
  by (simp add: fetch_reddit_posts_and_comments_def Let_def demo_run_world_def)

lemma demo_run_entries:
  "map (\<lambda>p. map_option length (map_of (all_comments (fetch_all demo_run_world)) (p_id p)))
     (all_posts (fetch_all demo_run_world)) = [Some 4, Some 4, None]"
  by (simp add: fetch_all_def subreddits_def fetch_subreddit_def listing_url_def
      demo_run_world_def initial_state_def skipped_def demo_post_def store_post_def
      fetch_post_comments_def comments_url_def demo_children_def demo_comment_def
      get_or_def deletion_markers_def clean_comment_text_def split_eval Let_def)

text \<open>
  Claim C8. The ids of the stored posts are 1, 2, ... up to their number, in the order in
  which the posts were stored; the stored posts are, channel by channel in the configured
  order and in the order of each listing, the raw posts that are not skipped, so a skipped
  raw post consumes no id. The same holds for the posts of whatever document the run writes.
\<close>

theorem sequence_ids:
  "map p_id (all_posts (fetch_all w)) = [1..int (length (all_posts (fetch_all w)))]
   \<and> map item_fields (all_posts (fetch_all w)) = map raw_item_fields (run_items w)
   \<and> (\<forall>doc. reddit_posts_json (fst (fetch_reddit_posts_and_comments w)) = Some doc
        \<longrightarrow> map p_id (od_posts doc) = [1..int (length (od_posts doc))])"
proof (intro conjI allI impI)
  show "map p_id (all_posts (fetch_all w)) = [1..int (length (all_posts (fetch_all w)))]"
    by (rule ids_of_inv [OF run_inv_fetch_all])
  show "map item_fields (all_posts (fetch_all w)) = map raw_item_fields (run_items w)"
    by (rule items_fetch_all)
next
  fix doc
  assume "reddit_posts_json (fst (fetch_reddit_posts_and_comments w)) = Some doc"
  then show "map p_id (od_posts doc) = [1..int (length (od_posts doc))]"
    using written_document [of w doc] ids_of_inv [OF run_inv_fetch_all, of w] fallback_ids
    by auto
qed

theorem sequence_ids_witness:
  "map p_id (all_posts (fetch_all demo_run_world)) = [1, 2, 3]
   \<and> (\<exists>doc. reddit_posts_json (fst (fetch_reddit_posts_and_comments demo_run_world)) = Some doc
         \<and> map p_id (od_posts doc) = [1..int (length (od_posts doc))])"
  using sequence_ids [of demo_run_world] demo_run_eval demo_run_written by auto

text \<open>
  Claim C10. After the loops, the mapping holds an entry for the id of a stored post exactly
  when the post has a native id and a permalink and the comment fetch for this permalink
  returned a non-empty list, and the entry is that list (\<open>expected_entry\<close>, up to the
  time strings); no entry is an empty list and every key is the id of a stored post. A
  document that the run writes without the fallback holds exactly these accumulators.
\<close>

theorem comment_mapping_entries:
  "(\<forall>p \<in> set (all_posts (fetch_all w)).
      map_option (map stored_fields) (map_of (all_comments (fetch_all w)) (p_id p))
      = expected_entry w p)
   \<and> (\<forall>e \<in> set (all_comments (fetch_all w)).
        snd e \<noteq> [] \<and> fst e \<in> p_id ` set (all_posts (fetch_all w)))
   \<and> (\<forall>k subreddit reddit_id permalink.
        map stored_fields (fst (fetch_post_comments w k subreddit reddit_id permalink))
        = comment_fields w permalink)
   \<and> (\<forall>doc. reddit_posts_json (fst (fetch_reddit_posts_and_comments w)) = Some doc
          \<and> od_source doc = None
        \<longrightarrow> od_posts doc = all_posts (fetch_all w) \<and> od_comments doc = all_comments (fetch_all w))"
proof -
  let ?st = "fetch_all w"
  have inv: "run_inv w ?st" by (rule run_inv_fetch_all)
  then have ids: "map p_id (all_posts ?st) = [1..post_id_counter ?st - 1]"
    and keys: "\<forall>i \<in> fst ` set (all_comments ?st). 1 \<le> i \<and> i < post_id_counter ?st"
    and vals: "\<forall>e \<in> set (all_comments ?st). snd e \<noteq> []"
    and entries: "\<forall>p \<in> set (all_posts ?st).
      map_option (map stored_fields) (map_of (all_comments ?st) (p_id p)) = expected_entry w p"
    by (simp_all add: run_inv_def)
  have key_is_id: "fst e \<in> p_id ` set (all_posts ?st)" if "e \<in> set (all_comments ?st)" for e
  proof -
    from that keys have "1 \<le> fst e \<and> fst e < post_id_counter ?st" by auto
    then have "fst e \<in> set [1..post_id_counter ?st - 1]" by simp
    then have "fst e \<in> set (map p_id (all_posts ?st))" using ids by simp
    then show ?thesis by simp
  qed
  have doc: "od_posts doc = all_posts ?st \<and> od_comments doc = all_comments ?st"
    if "reddit_posts_json (fst (fetch_reddit_posts_and_comments w)) = Some doc
          \<and> od_source doc = None" for doc
    using that written_document [of w doc] by auto
  show ?thesis using entries vals key_is_id fetch_post_comments_fields doc by blast
qed

theorem comment_mapping_entries_witness:
  "map p_id (all_posts (fetch_all demo_run_world)) = [1, 2, 3]
   \<and> map fst (all_comments (fetch_all demo_run_world)) = [1, 2]
   \<and> map (\<lambda>p. map_option length (map_of (all_comments (fetch_all demo_run_world)) (p_id p)))
        (all_posts (fetch_all demo_run_world)) = [Some 4, Some 4, None]
   \<and> map (\<lambda>p. map_option length (expected_entry demo_run_world p))
        (all_posts (fetch_all demo_run_world)) = [Some 4, Some 4, None]
   \<and> (\<exists>doc. reddit_posts_json (fst (fetch_reddit_posts_and_comments demo_run_world)) = Some doc
         \<and> od_source doc = None \<and> od_comments doc = all_comments (fetch_all demo_run_world))"
proof -
  let ?st = "fetch_all demo_run_world"
  have ev: "map p_id (all_posts ?st) = [1, 2, 3]" "map fst (all_comments ?st) = [1, 2]"
    using demo_run_eval by simp_all
  obtain doc where d: "reddit_posts_json (fst (fetch_reddit_posts_and_comments demo_run_world)) = Some doc"
    "od_source doc = None"
    by (simp add: fetch_reddit_posts_and_comments_def Let_def demo_run_world_def)
  have entries: "\<forall>p \<in> set (all_posts ?st).
      map_option (map stored_fields) (map_of (all_comments ?st) (p_id p))
      = expected_entry demo_run_world p"
    using comment_mapping_entries [of demo_run_world] by blast
  have "map_option length (expected_entry demo_run_world p)
        = map_option length (map_of (all_comments ?st) (p_id p))"
    if "p \<in> set (all_posts ?st)" for p
  proof -
    have "expected_entry demo_run_world p
          = map_option (map stored_fields) (map_of (all_comments ?st) (p_id p))"
      using entries that by simp
    then show ?thesis by (simp add: option.map_comp comp_def)
  qed
  then have "map (\<lambda>p. map_option length (expected_entry demo_run_world p)) (all_posts ?st)
      = map (\<lambda>p. map_option length (map_of (all_comments ?st) (p_id p))) (all_posts ?st)"
    by simp
  then have ex: "map (\<lambda>p. map_option length (expected_entry demo_run_world p)) (all_posts ?st)
      = [Some 4, Some 4, None]"
    using demo_run_entries by simp
  have "od_comments doc = all_comments ?st"
    using comment_mapping_entries [of demo_run_world] d by blast
  then show ?thesis using ev ex demo_run_entries d by blast
qed

section \<open>The run: failure of every channel\<close>

lemma foldl_all_fail:
  "\<forall>sub \<in> set subs. \<exists>e. get_listing w (listing_url sub) = Inl e \<Longrightarrow>
   foldl (fetch_subreddit w) st subs = st"
  by (induction subs arbitrary: st) (auto simp: fetch_subreddit_def)

text \<open>
  Claim C1, what the code does: when the fetch of every channel raises and the two files
  can be written, the per-channel handler swallows every failure, the run ends normally and
  the document it writes has an empty item list; the built-in fallback data is not used.
\<close>

theorem all_channels_fail:
  assumes "\<forall>sub \<in> set subreddits. \<exists>e. get_listing w (listing_url sub) = Inl e"
    and "\<not> write_raises w WritePosts" and "\<not> write_raises w WriteSummary"
  shows "\<exists>doc. reddit_posts_json (fst (fetch_reddit_posts_and_comments w)) = Some doc
           \<and> od_total_posts doc = 0 \<and> od_posts doc = [] \<and> od_comments doc = []
           \<and> od_source doc = None \<and> od_posts doc \<noteq> create_fallback_posts
           \<and> snd (fetch_reddit_posts_and_comments w) = Returned True"
proof -
  have "fetch_all w = initial_state"
    unfolding fetch_all_def using assms(1) by (rule foldl_all_fail)
  then show ?thesis
    using assms(2,3)
    by (simp add: fetch_reddit_posts_and_comments_def Let_def initial_state_def
        create_fallback_posts_def)
qed

theorem all_channels_fail_witness:
  "reddit_posts_json (fst (fetch_reddit_posts_and_comments (demo_world []))) =
     Some \<lparr>od_total_posts = 0, od_fetch_date = 1700000000000000,
           od_subreddits = Some subreddits, od_posts = [], od_comments = [],
           od_source = None\<rparr>"
proof -
  have "\<forall>sub \<in> set subreddits. \<exists>e. get_listing (demo_world []) (listing_url sub) = Inl e"
    by (simp add: demo_world_def)
  moreover have "\<not> write_raises (demo_world []) WritePosts"
    "\<not> write_raises (demo_world []) WriteSummary"
    by (simp_all add: demo_world_def)
  ultimately obtain doc where
    d: "reddit_posts_json (fst (fetch_reddit_posts_and_comments (demo_world []))) = Some doc"
      "od_total_posts doc = 0" "od_posts doc = []" "od_comments doc = []" "od_source doc = None"
    using all_channels_fail [of "demo_world []"] by blast
  have "od_fetch_date doc = 1700000000000000" "od_subreddits doc = Some subreddits"
    using d(1) by (auto simp: fetch_reddit_posts_and_comments_def fallback_def Let_def
        demo_world_def split: if_splits)
  then show ?thesis using d by simp
qed

text \<open>The fallback data is written when a write of the main path raises.\<close>

lemma fallback_on_write_failure:
  assumes "write_raises w WritePosts" "\<not> write_raises w WriteFallback"
  shows "\<exists>doc. reddit_posts_json (fst (fetch_reddit_posts_and_comments w)) = Some doc
           \<and> od_posts doc = create_fallback_posts \<and> od_comments doc = create_fallback_comments
           \<and> od_source doc = Some ''fallback''"
  using assms by (simp add: fetch_reddit_posts_and_comments_def fallback_def Let_def)

section \<open>Text cleaning: whitespace, markup and truncation\<close>

lemma isspace_space: "isspace CHR '' ''"
  by (simp add: isspace_def whitespace_chars_def)

lemma ws_normal_hd: "ws_normal (c # cs) \<Longrightarrow> \<not> isspace c"
  by (cases cs) auto

lemma ws_normal_after_word:
  "ws_normal (u @ c # cs) \<Longrightarrow> u \<noteq> [] \<Longrightarrow> isspace c \<Longrightarrow> c = CHR '' '' \<and> cs \<noteq> [] \<and> ws_normal cs"
proof (induction u rule: ws_normal.induct)
  case 1
  then show ?case by simp
next
  case (2 a)
  then show ?case using ws_normal_hd [of c cs] by (auto split: if_splits)
next
  case (3 a b u')
  show ?case
  proof (cases "b = CHR '' ''")
    case True
    then have n: "ws_normal (u' @ c # cs)" and ne: "u' @ c # cs \<noteq> []" using "3.prems" by auto
    show ?thesis
    proof (cases u')
      case Nil
      then show ?thesis using n "3.prems"(3) ws_normal_hd by auto
    next
      case (Cons x xs)
      then show ?thesis using "3.IH"(1) [OF True] n "3.prems"(3) by simp
    qed
  next
    case False
    then have "ws_normal ((b # u') @ c # cs)" using "3.prems" by auto
    then show ?thesis using "3.IH"(2) [OF False] "3.prems"(3) by simp
  qed
qed

lemma join_split_from_normal:
  "ws_normal (cur @ s) \<Longrightarrow> \<forall>c \<in> set cur. \<not> isspace c \<Longrightarrow>
   join_space (split_from cur s) = cur @ s"
proof (induction s arbitrary: cur)
  case Nil
  then show ?case by simp
next
  case (Cons c cs)
  show ?case
  proof (cases "isspace c")
    case False
    then have "join_space (split_from (cur @ [c]) cs) = (cur @ [c]) @ cs"
      using Cons.prems by (intro Cons.IH) auto
    then show ?thesis using False by simp
  next
    case True
    have cur: "cur \<noteq> []"
    proof
      assume "cur = []"
      then have "ws_normal (c # cs)" using Cons.prems(1) by simp
      then show False using True ws_normal_hd by blast
    qed
    from ws_normal_after_word [OF Cons.prems(1) cur True]
    have c: "c = CHR '' ''" and ne: "cs \<noteq> []" and n: "ws_normal cs" by simp_all
    have rest: "join_space (split_from [] cs) = cs"
      using Cons.IH [of "[]"] n by simp
    then have "split_from [] cs \<noteq> []" using ne by auto
    then obtain w ws where "split_from [] cs = w # ws" by (cases "split_from [] cs") auto
    then have "join_space (cur # split_from [] cs) = cur @ '' '' @ join_space (split_from [] cs)"
      by simp
    then show ?thesis using True cur rest c by simp
  qed
qed

lemma collapse_normal: "ws_normal s \<Longrightarrow> collapse s = s"
  unfolding collapse_def split_def using join_split_from_normal [of "[]" s] by simp

lemma words_split_from:
  "\<forall>c \<in> set cur. \<not> isspace c \<Longrightarrow>
   \<forall>w \<in> set (split_from cur s). w \<noteq> [] \<and> (\<forall>c \<in> set w. \<not> isspace c)"
proof (induction s arbitrary: cur)
  case Nil
  then show ?case by simp
next
  case (Cons c cs)
  have empty: "\<forall>w \<in> set (split_from [] cs). w \<noteq> [] \<and> (\<forall>c \<in> set w. \<not> isspace c)"
    by (rule Cons.IH) simp
  show ?case
  proof (cases "isspace c")
    case True
    show ?thesis
    proof (cases "cur = []")
      case True
      then show ?thesis using \<open>isspace c\<close> empty by simp
    next
      case False
      then show ?thesis using \<open>isspace c\<close> empty Cons.prems by simp
    qed
  next
    case False
    have "\<forall>x \<in> set (cur @ [c]). \<not> isspace x" using False Cons.prems by simp
    then have "\<forall>w \<in> set (split_from (cur @ [c]) cs). w \<noteq> [] \<and> (\<forall>c \<in> set w. \<not> isspace c)"
      by (rule Cons.IH)
    then show ?thesis using False by simp
  qed
qed

lemma ws_normal_word: "w \<noteq> [] \<Longrightarrow> \<forall>c \<in> set w. \<not> isspace c \<Longrightarrow> ws_normal w"
proof (induction w rule: ws_normal.induct)
  case 1
  then show ?case by simp
next
  case (2 c)
  then show ?case by simp
next
  case (3 c d cs)
  then have "d \<noteq> CHR '' ''" using isspace_space by auto
  then show ?case using 3 by simp
qed

lemma ws_normal_word_space:
  "w \<noteq> [] \<Longrightarrow> \<forall>c \<in> set w. \<not> isspace c \<Longrightarrow> t \<noteq> [] \<Longrightarrow> ws_normal t \<Longrightarrow>
   ws_normal (w @ CHR '' '' # t)"
proof (induction w rule: ws_normal.induct)
  case 1
  then show ?case by simp
next
  case (2 c)
  then show ?case by simp
next
  case (3 c d cs)
  then have "d \<noteq> CHR '' ''" using isspace_space by auto
  then show ?case using 3 by simp
qed

lemma join_space_Nil: "join_space ws = [] \<Longrightarrow> \<forall>w \<in> set ws. w \<noteq> [] \<Longrightarrow> ws = []"
  by (induction ws rule: join_space.induct) auto

lemma ws_normal_join:
  "\<forall>w \<in> set ws. w \<noteq> [] \<and> (\<forall>c \<in> set w. \<not> isspace c) \<Longrightarrow> ws_normal (join_space ws)"
proof (induction ws rule: join_space.induct)
  case 1
  then show ?case by simp
next
  case (2 w)
  then show ?case using ws_normal_word by simp
next
  case (3 w v ws)
  then have n: "ws_normal (join_space (v # ws))" by simp
  have "join_space (v # ws) \<noteq> []" using join_space_Nil [of "v # ws"] "3.prems" by auto
  then have "ws_normal (w @ CHR '' '' # join_space (v # ws))"
    using ws_normal_word_space [of w "join_space (v # ws)"] n "3.prems" by simp
  then show ?case by simp
qed

lemma ws_normal_collapse: "ws_normal (collapse s)"
  unfolding collapse_def split_def
  using ws_normal_join [OF words_split_from [of "[]" s]] by simp

lemma collapse_idem: "collapse (collapse s) = collapse s"
  using collapse_normal [OF ws_normal_collapse] .















section \<open>Text cleaning: idempotence on clean input\<close>





text \<open>
  A result of \<open>clean_comment_text\<close> can still hold an escaped entity, left by
  un-escaping \<open>&amp;\<close>; it is then not an already-clean input, and cleaning it again
  changes it.
\<close>

lemma comment_recleaning_changes_output:
  "clean_comment_text ''&amp;amp;gt; quoted'' = ''&amp;gt; quoted''
   \<and> clean_comment_text ''&amp;gt; quoted'' = ''&gt; quoted''
   \<and> clean_comment_text ''&gt; quoted'' = ''> quoted''"
  by (simp add: clean_comment_text_def deletion_markers_def split_def
      isspace_def whitespace_chars_def)

end
